theory Spec2Isabelle
  imports Main
begin

section \<open>Configuration of the link checker\<close>

text \<open>
  The script \<^verbatim>\<open>scripts/link-checker.js\<close> opens with four constants: the base URL of
  the locally running site, a request timeout, the seed pages and a list of files.
\<close>

definition BASE_URL :: string where
  "BASE_URL = ''http://localhost:4321/blog-monakit''"

definition TIMEOUT :: nat where
  "TIMEOUT = 5000"

definition PAGES_TO_CHECK :: "string list" where
  "PAGES_TO_CHECK =
     [''/'',
      ''/blogs'',
      ''/investment-results'',
      ''/blogs/diversified-investment-feature-complete'']"

definition FILES_TO_CHECK :: "string list" where
  "FILES_TO_CHECK =
     [''src/pages/index.astro'',
      ''src/pages/blogs/index.astro'',
      ''src/pages/investment-results/index.astro'',
      ''src/layouts/Layout.astro'']"

section \<open>String primitives of the host language\<close>

text \<open>
  \<^verbatim>\<open>s.startsWith(p)\<close>: \<open>p\<close> is a prefix of \<open>s\<close>.
\<close>

definition startsWith :: "string \<Rightarrow> string \<Rightarrow> bool" where
  "startsWith s p \<longleftrightarrow> take (length p) s = p"

text \<open>
  \<^verbatim>\<open>s.replace(pat, rep)\<close> with a string pattern: only the leftmost occurrence of
  \<open>pat\<close> is replaced; a string without the pattern is returned as it is.
\<close>

fun replace :: "string \<Rightarrow> string \<Rightarrow> string \<Rightarrow> string" where
  "replace [] pat rep = (if pat = [] then rep else [])"
| "replace (c # cs) pat rep =
     (if startsWith (c # cs) pat then rep @ drop (length pat) (c # cs)
      else c # replace cs pat rep)"

section \<open>Link classification and normalisation\<close>

text \<open>
  \<^verbatim>\<open>isInternalLink(link)\<close>: the four prefixes the script accepts, in its order.
\<close>

definition isInternalLink :: "string \<Rightarrow> bool" where
  "isInternalLink link \<longleftrightarrow>
     startsWith link ''/blog-monakit/'' \<or>
     startsWith link ''/'' \<or>
     startsWith link ''./'' \<or>
     startsWith link ''../''"

text \<open>
  \<^verbatim>\<open>normalizeLink(link)\<close>: a link under the base path loses the first occurrence of
  \<^verbatim>\<open>/blog-monakit\<close>; a link with a leading slash is kept; anything else gets a slash
  in front.
\<close>

definition normalizeLink :: "string \<Rightarrow> string" where
  "normalizeLink link =
     (if startsWith link ''/blog-monakit/'' then replace link ''/blog-monakit'' ''''
      else if startsWith link ''/'' then link
      else ''/'' @ link)"

section \<open>The link extractor\<close>

text \<open>
  The extractor scans the page with the regular expression
  \<^verbatim>\<open>/href=["']([^"']+)["']/g\<close>. \<open>is_quote\<close> is its character class
  \<^verbatim>\<open>["']\<close> (code points 0x22 and 0x27).
\<close>

definition is_quote :: "char \<Rightarrow> bool" where
  "is_quote c \<longleftrightarrow> c = CHR 0x22 \<or> c = CHR 0x27"

text \<open>
  The pattern tried at the very start of a string: the literal \<^verbatim>\<open>href=\<close>, one quote,
  the longest run of characters that are not quotes (it is the captured group and must
  not be empty), one quote. A shorter run would be followed by a character that is no
  quote, so backtracking never finds a match the longest run misses. The result is the
  captured group and the text after the match.
\<close>

definition match_here :: "string \<Rightarrow> (string \<times> string) option" where
  "match_here s =
     (if startsWith s ''href='' then
        (case drop 5 s of
           [] \<Rightarrow> None
         | q # r \<Rightarrow>
             if is_quote q then
               (case dropWhile (\<lambda>c. \<not> is_quote c) r of
                  [] \<Rightarrow> None
                | q' # rest \<Rightarrow>
                    if takeWhile (\<lambda>c. \<not> is_quote c) r = [] then None
                    else Some (takeWhile (\<lambda>c. \<not> is_quote c) r, rest))
             else None
        )
      else None)"

text \<open>
  \<^verbatim>\<open>hrefRegex.exec(html)\<close> from the current \<^verbatim>\<open>lastIndex\<close>: the leftmost match in the
  text not yet consumed, or \<^verbatim>\<open>null\<close>. The second component is the text from the new
  \<^verbatim>\<open>lastIndex\<close> on.
\<close>

fun exec :: "string \<Rightarrow> (string \<times> string) option" where
  "exec [] = None"
| "exec (c # cs) =
     (case match_here (c # cs) of
        Some m \<Rightarrow> Some m
      | None \<Rightarrow> exec cs)"

text \<open>
  The values of \<^verbatim>\<open>match[1]\<close> over all iterations of the
  \<^verbatim>\<open>while ((match = hrefRegex.exec(html)) !== null)\<close> loop, internal or not: the href
  attribute values the pattern finds in a page, in their order. Every match consumes at
  least one character, so the loop ends.
\<close>

function hrefs :: "string \<Rightarrow> string list" where
  "hrefs html =
     (case exec html of
        None \<Rightarrow> []
      | Some (link, rest) \<Rightarrow> link # hrefs rest)"
  by pat_completeness auto
termination
proof -
  have here: "length rest < length s" if "match_here s = Some (v, rest)"
    for s v rest
  proof -
    from that obtain q r q' where d: "drop 5 s = q # r"
        and t: "dropWhile (\<lambda>c. \<not> is_quote c) r = q' # rest"
      by (auto simp: match_here_def split: if_splits list.splits)
    have "length (dropWhile (\<lambda>c. \<not> is_quote c) r) \<le> length r"
      by (rule length_dropWhile_le)
    with t have "length rest < length r" by simp
    moreover have "length (drop 5 s) \<le> length s" by simp
    with d have "length r < length s" by simp
    ultimately show ?thesis by simp
  qed
  have shorter: "length rest < length s" if "exec s = Some (v, rest)"
    for s v rest
    using that
  proof (induction s)
    case Nil
    then show ?case by simp
  next
    case (Cons c cs)
    show ?case
    proof (cases "match_here (c # cs)")
      case None
      with Cons show ?thesis by fastforce
    next
      case (Some m)
      with Cons.prems have "match_here (c # cs) = Some (v, rest)" by simp
      then show ?thesis by (rule here)
    qed
  qed
  show ?thesis
    by (relation "measure length") (auto dest: shorter)
qed

text \<open>
  The loop of \<^verbatim>\<open>extractLinks\<close> itself: \<open>links\<close> is the array built so far, \<open>html\<close> the
  text from \<^verbatim>\<open>lastIndex\<close> on. A link is pushed when it is internal.
\<close>

function extractLoop :: "string \<Rightarrow> string list \<Rightarrow> string list" where
  "extractLoop html links =
     (case exec html of
        None \<Rightarrow> links
      | Some (link, rest) \<Rightarrow>
          extractLoop rest (if isInternalLink link then links @ [link] else links))"
  by pat_completeness auto
termination
  by (relation "measure (\<lambda>(html, links). length (hrefs html))") auto

text \<open>
  \<^verbatim>\<open>[...new Set(links)]\<close>: a \<^verbatim>\<open>Set\<close> keeps its elements in insertion order, so the
  result holds the first occurrence of every element, in the order of the array.
\<close>

definition set_add :: "string list \<Rightarrow> string \<Rightarrow> string list" where
  "set_add acc x = (if x \<in> set acc then acc else acc @ [x])"

definition newSet :: "string list \<Rightarrow> string list" where
  "newSet xs = foldl set_add [] xs"

definition extractLinks :: "string \<Rightarrow> string list" where
  "extractLinks html = newSet (extractLoop html [])"

text \<open>Pages for the examples: an anchor, and two pages of a few anchors.\<close>

definition anchor :: "string \<Rightarrow> string" where
  "anchor l = ''<a href='' @ [CHR 0x22] @ l @ [CHR 0x22] @ ''>x</a>''"

definition example_page :: string where
  "example_page =
     ''<a href=\"/a\">1</a> <a href='./b'>2</a> <a href=\"/a\">3</a> <a href=\"https://example.org/\">4</a>''"

definition fragment_page :: string where
  "fragment_page = ''<a href=\"#section\">top</a><a href=\"?x=1\">q</a>''"

section \<open>The checker and its environment\<close>

text \<open>
  The outside world. A request is a method and a URL. \<^verbatim>\<open>fetch\<close> either rejects with an
  error message or resolves with a response: its status code and what
  \<^verbatim>\<open>response.text()\<close> gives (\<open>Inr\<close> the body, \<open>Inl\<close> the message when reading it
  rejects). The network answers a request knowing the requests made before it, so the
  same URL may be answered differently at different times. The file system says which
  paths, relative to the working directory, exist.
\<close>

datatype http_method = GET | HEAD

datatype request = Request http_method string

datatype fetched = Rejected string | Resolved nat "string + string"

type_synonym network = "request list \<Rightarrow> request \<Rightarrow> fetched"

type_synonym filesystem = "string \<Rightarrow> bool"

text \<open>\<^verbatim>\<open>response.ok\<close>: the status is in the range 200 to 299.\<close>

definition ok :: "nat \<Rightarrow> bool" where
  "ok st \<longleftrightarrow> 200 \<le> st \<and> st \<le> 299"

text \<open>
  An entry of \<^verbatim>\<open>this.brokenLinks\<close>, with the fields \<^verbatim>\<open>page\<close>, \<^verbatim>\<open>link\<close>,
  \<^verbatim>\<open>status\<close>, \<^verbatim>\<open>type\<close> and the optional \<^verbatim>\<open>error\<close>. The status is the
  number of a response or one of the strings \<^verbatim>\<open>TIMEOUT\<close> and \<^verbatim>\<open>NOT_FOUND\<close>; the
  type is one of the strings \<^verbatim>\<open>page\<close>, \<^verbatim>\<open>link\<close> and \<^verbatim>\<open>file\<close>.
\<close>

datatype status = Code nat | Label string

record broken =
  broken_page :: string
  broken_link :: string
  broken_status :: status
  broken_type :: string
  broken_error :: "string option"

text \<open>
  The lines the script prints, by the call that prints them (the texts themselves are
  not modelled).
\<close>

datatype log =
    LogStart
  | LogServerUp
  | LogServerDown
  | LogChecking string
  | LogPageFailed string string
  | LogStaticHeader
  | LogFileOk string
  | LogFileMissing string
  | LogAllGood
  | LogProblems "broken list"

text \<open>
  The fields of a \<^verbatim>\<open>LinkChecker\<close>, and two records of its effects: \<open>requests\<close>, the
  network calls made so far (oldest first), and \<open>console\<close>, the lines printed.
\<close>

record checker =
  brokenLinks :: "broken list"
  checkedLinks :: "string set"
  serverRunning :: bool
  requests :: "request list"
  console :: "log list"

text \<open>The constructor.\<close>

definition new_LinkChecker :: checker where
  "new_LinkChecker =
     \<lparr>brokenLinks = [], checkedLinks = {}, serverRunning = False, requests = [], console = []\<rparr>"

text \<open>
  \<^verbatim>\<open>await fetch(...)\<close>: the network's answer, and the call recorded. The \<^verbatim>\<open>timeout\<close>
  option of \<^verbatim>\<open>checkLink\<close> does not change which request is made; a request that times
  out is one the network rejects.
\<close>

definition fetch :: "network \<Rightarrow> request \<Rightarrow> checker \<Rightarrow> fetched \<times> checker" where
  "fetch net req s = (net (requests s) req, s\<lparr>requests := requests s @ [req]\<rparr>)"

definition print :: "log \<Rightarrow> checker \<Rightarrow> checker" where
  "print l s = s\<lparr>console := console s @ [l]\<rparr>"

definition push :: "broken \<Rightarrow> checker \<Rightarrow> checker" where
  "push b s = s\<lparr>brokenLinks := brokenLinks s @ [b]\<rparr>"

text \<open>
  \<^verbatim>\<open>checkServerStatus\<close>: a response that is not ok throws inside the \<^verbatim>\<open>try\<close>, so it
  ends in the same \<^verbatim>\<open>catch\<close> as a rejected request.
\<close>

definition checkServerStatus :: "network \<Rightarrow> checker \<Rightarrow> checker" where
  "checkServerStatus net s =
     (case fetch net (Request GET (BASE_URL @ ''/'')) s of
        (Resolved st body, s1) \<Rightarrow>
          if ok st then (print LogServerUp s1)\<lparr>serverRunning := True\<rparr>
          else (print LogServerDown s1)\<lparr>serverRunning := False\<rparr>
      | (Rejected msg, s1) \<Rightarrow> (print LogServerDown s1)\<lparr>serverRunning := False\<rparr>)"

text \<open>
  \<^verbatim>\<open>checkLink(sourcePage, link)\<close>: the membership test and the insertion use the link
  as it was extracted; the request and the entries use the normalised link.
\<close>

definition checkLink :: "network \<Rightarrow> string \<Rightarrow> string \<Rightarrow> checker \<Rightarrow> checker" where
  "checkLink net sourcePage link s =
     (if link \<in> checkedLinks s then s
      else
        (case fetch net (Request HEAD (BASE_URL @ normalizeLink link))
                (s\<lparr>checkedLinks := insert link (checkedLinks s)\<rparr>) of
           (Resolved st body, s1) \<Rightarrow>
             if \<not> ok st then
               push \<lparr>broken_page = sourcePage, broken_link = normalizeLink link,
                     broken_status = Code st, broken_type = ''link'',
                     broken_error = None\<rparr> s1
             else s1
         | (Rejected msg, s1) \<Rightarrow>
             push \<lparr>broken_page = sourcePage, broken_link = normalizeLink link,
                   broken_status = Label ''TIMEOUT'', broken_type = ''link'',
                   broken_error = Some msg\<rparr> s1))"

text \<open>
  \<^verbatim>\<open>checkPageLinks(page)\<close>: nothing when the server is not running; a rejected request
  or a body that cannot be read is caught and printed; a response that is not ok is
  recorded and ends the call; otherwise every extracted link is checked in turn.
\<close>

definition checkPageLinks :: "network \<Rightarrow> string \<Rightarrow> checker \<Rightarrow> checker" where
  "checkPageLinks net page s =
     (if \<not> serverRunning s then s
      else
        (case fetch net (Request GET (BASE_URL @ page)) s of
           (Rejected msg, s1) \<Rightarrow> print (LogPageFailed page msg) s1
         | (Resolved st body, s1) \<Rightarrow>
             if \<not> ok st then
               push \<lparr>broken_page = page, broken_link = page,
                     broken_status = Code st, broken_type = ''page'',
                     broken_error = None\<rparr> s1
             else
               (case body of
                  Inl msg \<Rightarrow> print (LogPageFailed page msg) s1
                | Inr html \<Rightarrow>
                    foldl (\<lambda>s2 link. checkLink net page link s2) s1 (extractLinks html))))"

text \<open>
  \<^verbatim>\<open>checkStaticFiles\<close>: the list it walks is the one written inside the method.
\<close>

definition staticFiles :: "string list" where
  "staticFiles =
     [''public/enhanced_dividend_result_20251016_145023.html'',
      ''public/netnet_result.html'']"

definition checkFile :: "filesystem \<Rightarrow> checker \<Rightarrow> string \<Rightarrow> checker" where
  "checkFile fs s file =
     (if fs file then print (LogFileOk file) s
      else
        push \<lparr>broken_page = ''static'', broken_link = file,
              broken_status = Label ''NOT_FOUND'', broken_type = ''file'',
              broken_error = None\<rparr>
          (print (LogFileMissing file) s))"

definition checkStaticFiles :: "filesystem \<Rightarrow> checker \<Rightarrow> checker" where
  "checkStaticFiles fs s = foldl (checkFile fs) (print LogStaticHeader s) staticFiles"

definition displayResults :: "checker \<Rightarrow> checker" where
  "displayResults s =
     (if brokenLinks s = [] then print LogAllGood s
      else print (LogProblems (brokenLinks s)) s)"

text \<open>
  The loop of \<^verbatim>\<open>run\<close> over the seed pages, and \<^verbatim>\<open>run\<close> itself on a new checker.
  Every callee catches what its requests throw, so the \<^verbatim>\<open>catch\<close> of \<^verbatim>\<open>run\<close> (which
  would exit with status 1) is never entered.
\<close>

definition checkPages :: "network \<Rightarrow> string list \<Rightarrow> checker \<Rightarrow> checker" where
  "checkPages net pages s =
     foldl (\<lambda>s1 page. checkPageLinks net page (print (LogChecking page) s1)) s pages"

definition run :: "network \<Rightarrow> filesystem \<Rightarrow> checker" where
  "run net fs =
     displayResults
       (checkStaticFiles fs
          (checkPages net PAGES_TO_CHECK
             (checkServerStatus net (print LogStart new_LinkChecker))))"

section \<open>Notions used to state the properties\<close>

text \<open>The page fetches and the probe are the requests with the method \<^verbatim>\<open>GET\<close>.\<close>

fun is_get :: "request \<Rightarrow> bool" where
  "is_get (Request m u) \<longleftrightarrow> m = GET"

text \<open>
  The relation between the existence checks made and the set of visited links that
  every step of a run keeps: for each normal form \<open>n\<close>, the \<^verbatim>\<open>HEAD\<close> requests for \<open>n\<close> are
  as many as the visited links whose normal form is \<open>n\<close>.
\<close>

definition dedup_inv :: "checker \<Rightarrow> bool" where
  "dedup_inv s \<longleftrightarrow>
     finite (checkedLinks s) \<and>
     (\<forall>n. count_list (requests s) (Request HEAD (BASE_URL @ n)) =
          card {l \<in> checkedLinks s. normalizeLink l = n})"

text \<open>
  The existence check \<^verbatim>\<open>checkLink\<close> makes for an extracted link: a \<^verbatim>\<open>HEAD\<close> request for
  its normal form under the base URL.
\<close>

definition check_request :: "string \<Rightarrow> request" where
  "check_request link = Request HEAD (BASE_URL @ normalizeLink link)"

text \<open>
  The links a run obtained from its pages, read off the requests it made. The first
  request of a run is the probe; every later \<^verbatim>\<open>GET\<close> is the fetch of a seed page, and
  the answer it got is the network's answer after the requests before it. A fetch
  answered with a successful status and a readable body yields what the extractor
  returns for the body; any other fetch, and every \<^verbatim>\<open>HEAD\<close>, yields nothing.
  \<open>run_links\<close> lists these links page after page, repetitions included.
\<close>

fun links_of :: "fetched \<Rightarrow> string list" where
  "links_of (Resolved st (Inr html)) = (if ok st then extractLinks html else [])"
| "links_of (Resolved st (Inl msg)) = []"
| "links_of (Rejected msg) = []"

fun page_links :: "network \<Rightarrow> request list \<Rightarrow> request list \<Rightarrow> string list" where
  "page_links net hist [] = []"
| "page_links net hist (Request GET u # rs) =
     links_of (net hist (Request GET u)) @ page_links net (hist @ [Request GET u]) rs"
| "page_links net hist (Request HEAD u # rs) = page_links net (hist @ [Request HEAD u]) rs"

definition run_links :: "network \<Rightarrow> request list \<Rightarrow> string list" where
  "run_links net rs = (case rs of [] \<Rightarrow> [] | probe # rest \<Rightarrow> page_links net [probe] rest)"

text \<open>
  What holds of a checker between two seed pages: the set of visited links is the set of
  the links obtained so far, and the existence checks made so far are one for each of
  them, in the order of their first occurrence.
\<close>

definition links_inv :: "network \<Rightarrow> checker \<Rightarrow> bool" where
  "links_inv net s \<longleftrightarrow>
     requests s \<noteq> [] \<and>
     checkedLinks s = set (run_links net (requests s)) \<and>
     filter (\<lambda>r. \<not> is_get r) (requests s) =
       map check_request (newSet (run_links net (requests s)))"

text \<open>
  Environments for the examples. A server that refuses every connection and one that
  answers 503 to everything; a working directory with none of the files and one with all
  of them; a site with a broken link, a link that times out, a seed page that answers 500
  and one whose request fails; a site whose first two seed pages link to the same page,
  \<^verbatim>\<open>/a\<close>, once under the base path and once bare, and both to \<^verbatim>\<open>/b\<close>; a checker that
  has found its server running.
\<close>

definition server_down :: network where
  "server_down hist req = Rejected ''connect ECONNREFUSED''"

definition server_503 :: network where
  "server_503 hist req = Resolved 503 (Inr [])"

definition no_files :: filesystem where
  "no_files file = False"

definition all_files :: filesystem where
  "all_files file = True"

definition example_net :: network where
  "example_net hist req =
     (if req = Request GET (BASE_URL @ ''/'') then
        Resolved 200
          (Inr ''<a href=\"/missing-page\">1</a><a href=\"./slow\">2</a><a href=\"/blogs\">3</a>'')
      else if req = Request GET (BASE_URL @ ''/blogs'') then Resolved 500 (Inr [])
      else if req = Request GET (BASE_URL @ ''/investment-results'') then
        Rejected ''socket hang up''
      else if req = Request HEAD (BASE_URL @ ''/missing-page'') then Resolved 404 (Inr [])
      else if req = Request HEAD (BASE_URL @ ''/./slow'') then
        Rejected ''The operation was aborted''
      else Resolved 200 (Inr []))"

definition two_forms_net :: network where
  "two_forms_net hist req =
     (if req = Request GET (BASE_URL @ ''/'') then
        Resolved 200 (Inr ''<a href=\"/blog-monakit/a\">a</a><a href=\"/b\">b</a>'')
      else if req = Request GET (BASE_URL @ ''/blogs'') then
        Resolved 200 (Inr ''<a href=\"/a\">a</a><a href=\"/b\">b</a>'')
      else Resolved 200 (Inr []))"

definition running_checker :: checker where
  "running_checker = new_LinkChecker\<lparr>serverRunning := True\<rparr>"

section \<open>Facts about the string primitives\<close>

declare extractLoop.simps [simp del]

declare hrefs.simps [simp del]

lemma startsWith_Nil [simp]: "startsWith s []"
  by (simp add: startsWith_def)

lemma startsWith_Nil_Cons [simp]: "\<not> startsWith [] (d # p)"
  by (simp add: startsWith_def)

lemma startsWith_Cons [simp]: "startsWith (c # s) (d # p) \<longleftrightarrow> c = d \<and> startsWith s p"
  by (auto simp: startsWith_def)

lemma startsWith_append [simp]: "startsWith (p @ s) p"
  by (simp add: startsWith_def)

lemma startsWith_iff: "startsWith s p \<longleftrightarrow> (\<exists>t. s = p @ t)"
proof
  assume "startsWith s p"
  then have "s = p @ drop (length p) s"
    by (metis append_take_drop_id startsWith_def)
  then show "\<exists>t. s = p @ t" ..
next
  assume "\<exists>t. s = p @ t"
  then show "startsWith s p" by (auto simp: startsWith_def)
qed

lemma startsWith_slash: "startsWith s ''/'' \<longleftrightarrow> (\<exists>t. s = CHR ''/'' # t)"
  by (simp add: startsWith_iff)

lemma replace_prefix: "startsWith s pat \<Longrightarrow> replace s pat rep = rep @ drop (length pat) s"
  by (cases s) (auto simp: startsWith_def)

lemma startsWith_base_weaken:
  "startsWith s ''/blog-monakit/'' \<Longrightarrow> startsWith s ''/blog-monakit''"
  by (auto simp: startsWith_iff)

lemma normalizeLink_base:
  "normalizeLink (''/blog-monakit/'' @ t) = CHR ''/'' # t"
proof -
  have "startsWith (''/blog-monakit/'' @ t) ''/blog-monakit/''"
    by (simp add: startsWith_def)
  then show ?thesis
    by (simp add: normalizeLink_def replace_prefix startsWith_base_weaken)
qed

lemma normalizeLink_cases:
  "(\<exists>t. link = ''/blog-monakit/'' @ t \<and> normalizeLink link = CHR ''/'' # t) \<or>
   (\<not> startsWith link ''/blog-monakit/'' \<and> startsWith link ''/'' \<and> normalizeLink link = link) \<or>
   (\<not> startsWith link ''/blog-monakit/'' \<and> \<not> startsWith link ''/'' \<and>
      normalizeLink link = CHR ''/'' # link)"
proof (cases "startsWith link ''/blog-monakit/''")
  case True
  then obtain t where "link = ''/blog-monakit/'' @ t"
    by (auto simp: startsWith_iff)
  then show ?thesis using normalizeLink_base [of t] by blast
next
  case False
  then show ?thesis by (simp add: normalizeLink_def)
qed

lemma startsWith_longer: "startsWith t (p @ q) \<Longrightarrow> startsWith t p"
  by (auto simp: startsWith_iff)

lemma normalizeLink_slash_plain:
  "\<not> startsWith t ''blog-monakit/'' \<Longrightarrow> normalizeLink (CHR ''/'' # t) = CHR ''/'' # t"
  by (simp add: normalizeLink_def)

lemma normalizeLink_other:
  "\<not> startsWith link ''/'' \<Longrightarrow> normalizeLink link = CHR ''/'' # link"
  by (cases link) (auto simp add: normalizeLink_def)

text \<open>
  A link with a leading slash is a fixed point of the normaliser exactly when the base
  path does not follow the slash.
\<close>

lemma normalizeLink_slash_fixed:
  "normalizeLink (CHR ''/'' # t) = CHR ''/'' # t \<longleftrightarrow> \<not> startsWith t ''blog-monakit/''"
proof (cases "startsWith t ''blog-monakit/''")
  case True
  then obtain u where t: "t = ''blog-monakit/'' @ u" by (auto simp: startsWith_iff)
  then have "length u \<noteq> length t" by simp
  then have "u \<noteq> t" by auto
  moreover have "normalizeLink (CHR ''/'' # t) = CHR ''/'' # u"
    using normalizeLink_base [of u] t by simp
  ultimately show ?thesis using True by simp
next
  case False
  then show ?thesis by (simp add: normalizeLink_slash_plain)
qed

section \<open>The link normaliser\<close>

text \<open>
  C3, as the code has it. The normaliser is a function of its argument alone, and
  \<open>normalize (normalize x) = normalize x\<close> holds exactly for the links \<open>x\<close> that start
  neither with \<^verbatim>\<open>/blog-monakit/blog-monakit/\<close> nor with \<^verbatim>\<open>blog-monakit/\<close>: for those two
  forms the first pass leaves a link that is again under the base path, and the second
  pass strips it once more.
\<close>

theorem normalizeLink_idempotent_iff:
  "normalizeLink (normalizeLink x) = normalizeLink x \<longleftrightarrow>
     \<not> (startsWith x ''/blog-monakit/blog-monakit/'' \<or> startsWith x ''blog-monakit/'')"
proof (cases "startsWith x ''/''")
  case False
  then have "normalizeLink x = CHR ''/'' # x" by (rule normalizeLink_other)
  moreover from False have "\<not> startsWith x ''/blog-monakit/blog-monakit/''"
    by (cases x) auto
  ultimately show ?thesis by (simp add: normalizeLink_slash_fixed)
next
  case True
  then obtain t where x: "x = CHR ''/'' # t" by (auto simp: startsWith_slash)
  show ?thesis
  proof (cases "startsWith t ''blog-monakit/''")
    case False
    then have "\<not> startsWith t (''blog-monakit/'' @ ''blog-monakit/'')"
      using startsWith_longer by blast
    with False x show ?thesis by (simp add: normalizeLink_slash_plain)
  next
    case True
    then obtain u where t: "t = ''blog-monakit/'' @ u" by (auto simp: startsWith_iff)
    have "normalizeLink x = CHR ''/'' # u"
      using normalizeLink_base [of u] x t by simp
    moreover have "startsWith x ''/blog-monakit/blog-monakit/'' \<longleftrightarrow> startsWith u ''blog-monakit/''"
      using x t by simp
    moreover have "\<not> startsWith x ''blog-monakit/''" using x by simp
    ultimately show ?thesis by (simp add: normalizeLink_slash_fixed)
  qed
qed

text \<open>The link \<^verbatim>\<open>/blog-monakit/about\<close> is normalised to \<^verbatim>\<open>/about\<close>, which stays.\<close>

theorem normalizeLink_idempotent_iff_witness:
  "normalizeLink (normalizeLink ''/blog-monakit/about'') = normalizeLink ''/blog-monakit/about''"
  using normalizeLink_idempotent_iff [of "''/blog-monakit/about''"] by simp

text \<open>
  C3 as the specification states it fails: \<^verbatim>\<open>/blog-monakit/blog-monakit/a\<close> is
  normalised to \<^verbatim>\<open>/blog-monakit/a\<close>, and that to \<^verbatim>\<open>/a\<close>.
\<close>

theorem normalizeLink_not_idempotent:
  "normalizeLink ''/blog-monakit/blog-monakit/a'' = ''/blog-monakit/a'' \<and>
   normalizeLink (normalizeLink ''/blog-monakit/blog-monakit/a'') = ''/a'' \<and>
   normalizeLink (normalizeLink ''/blog-monakit/blog-monakit/a'') \<noteq>
     normalizeLink ''/blog-monakit/blog-monakit/a''"
  by (simp add: normalizeLink_def)

text \<open>
  C9, as the code has it. For a path suffix \<open>x\<close>, the link under the base path,
  \<^verbatim>\<open>/blog-monakit\<close> followed by \<^verbatim>\<open>/\<close> and \<open>x\<close>, and the bare link, \<^verbatim>\<open>/\<close> followed by
  \<open>x\<close>, have the same normal form exactly when \<open>x\<close> does not itself start with
  \<^verbatim>\<open>blog-monakit/\<close>.
\<close>

theorem prefix_stripping_iff:
  "normalizeLink (''/blog-monakit'' @ ''/'' @ x) = normalizeLink (''/'' @ x) \<longleftrightarrow>
     \<not> startsWith x ''blog-monakit/''"
proof -
  have "normalizeLink (''/blog-monakit'' @ ''/'' @ x) = CHR ''/'' # x"
    using normalizeLink_base [of x] by simp
  then show ?thesis
    using normalizeLink_slash_fixed [of x] by (simp add: eq_commute)
qed

text \<open>Both \<^verbatim>\<open>/blog-monakit/blogs\<close> and \<^verbatim>\<open>/blogs\<close> are normalised to \<^verbatim>\<open>/blogs\<close>.\<close>

theorem prefix_stripping_iff_witness:
  "normalizeLink (''/blog-monakit'' @ ''/'' @ ''blogs'') = normalizeLink (''/'' @ ''blogs'') \<and>
   normalizeLink (''/'' @ ''blogs'') = ''/blogs''"
  using prefix_stripping_iff [of "''blogs''"] by (simp add: normalizeLink_def)

text \<open>
  C9 as the specification states it fails at the suffix \<^verbatim>\<open>blog-monakit/a\<close>: the link
  under the base path is normalised to \<^verbatim>\<open>/blog-monakit/a\<close>, the bare link to \<^verbatim>\<open>/a\<close>.
\<close>

theorem prefix_stripping_fails:
  "normalizeLink (''/blog-monakit'' @ ''/'' @ ''blog-monakit/a'') = ''/blog-monakit/a'' \<and>
   normalizeLink (''/'' @ ''blog-monakit/a'') = ''/a'' \<and>
   normalizeLink (''/blog-monakit'' @ ''/'' @ ''blog-monakit/a'') \<noteq>
     normalizeLink (''/'' @ ''blog-monakit/a'')"
  by (simp add: normalizeLink_def)

text \<open>
  C10. Whatever the link (under the base path, bare, relative or empty), its normal
  form is not empty and starts with the character \<^verbatim>\<open>/\<close>.
\<close>

theorem normalizeLink_leading_slash:
  "startsWith (normalizeLink link) ''/'' \<and> normalizeLink link \<noteq> []"
proof -
  from normalizeLink_cases [of link]
  obtain t where "normalizeLink link = CHR ''/'' # t"
    by (auto simp: startsWith_slash)
  then show ?thesis by simp
qed

text \<open>The empty link is normalised to \<^verbatim>\<open>/\<close>.\<close>

theorem normalizeLink_leading_slash_witness:
  "startsWith (normalizeLink []) ''/'' \<and> normalizeLink [] \<noteq> [] \<and> normalizeLink [] = ''/''"
  using normalizeLink_leading_slash [of "[]"] by (simp add: normalizeLink_def)

section \<open>Properties of the link extractor\<close>

lemma set_foldl_set_add: "set (foldl set_add acc xs) = set acc \<union> set xs"
  by (induction xs arbitrary: acc) (auto simp: set_add_def)

lemma distinct_foldl_set_add: "distinct acc \<Longrightarrow> distinct (foldl set_add acc xs)"
  by (induction xs arbitrary: acc) (auto simp: set_add_def)

lemma set_newSet [simp]: "set (newSet xs) = set xs"
  by (simp add: newSet_def set_foldl_set_add)

lemma distinct_newSet [simp]: "distinct (newSet xs)"
  by (simp add: newSet_def distinct_foldl_set_add)

text \<open>The loop pushes the internal ones among the values the pattern finds, in order.\<close>

lemma extractLoop_hrefs:
  "extractLoop html links = links @ filter isInternalLink (hrefs html)"
proof (induction html links rule: extractLoop.induct)
  case (1 html links)
  show ?case
  proof (cases "exec html")
    case None
    then show ?thesis
      by (simp add: extractLoop.simps [of html] hrefs.simps [of html])
  next
    case (Some m)
    obtain link rest where m: "m = (link, rest)" by (cases m)
    with Some 1 show ?thesis
      by (simp add: extractLoop.simps [of html] hrefs.simps [of html])
  qed
qed

lemma extractLinks_hrefs: "extractLinks html = newSet (filter isInternalLink (hrefs html))"
  by (simp add: extractLinks_def extractLoop_hrefs)

text \<open>
  What the pattern finds in a page written as a sequence of anchors, one for each element
  of a list of attribute values (none empty, none with a quote in it): the list itself.
\<close>

lemma match_here_href:
  assumes "l \<noteq> []" and "\<forall>c \<in> set l. \<not> is_quote c" and "is_quote q" and "is_quote q'"
  shows "match_here (''href='' @ [q] @ l @ [q'] @ t) = Some (l, t)"
proof -
  have "takeWhile (\<lambda>c. \<not> is_quote c) (l @ q' # t) = l"
    using assms by (simp add: takeWhile_append2)
  moreover have "dropWhile (\<lambda>c. \<not> is_quote c) (l @ q' # t) = q' # t"
    using assms by (simp add: dropWhile_append2)
  ultimately show ?thesis using assms by (simp add: match_here_def)
qed

lemma match_here_not_h: "c \<noteq> CHR ''h'' \<Longrightarrow> match_here (c # cs) = None"
  by (simp add: match_here_def)

lemma exec_anchor:
  assumes "l \<noteq> []" and "\<forall>c \<in> set l. \<not> is_quote c"
  shows "exec (anchor l @ t) = Some (l, ''>x</a>'' @ t)"
proof -
  have q: "is_quote (CHR 0x22)" by (simp add: is_quote_def)
  have "exec (anchor l @ t) = exec (''href='' @ [CHR 0x22] @ l @ [CHR 0x22] @ (''>x</a>'' @ t))"
    by (simp add: anchor_def match_here_not_h)
  also have "\<dots> = Some (l, ''>x</a>'' @ t)"
    using match_here_href [OF assms q q, of "''>x</a>'' @ t"] by simp
  finally show ?thesis .
qed

lemma hrefs_tail: "hrefs (''>x</a>'' @ t) = hrefs t"
  by (simp add: hrefs.simps [of "_ # _"] hrefs.simps [of t] match_here_not_h)

lemma hrefs_anchors:
  assumes "\<forall>l \<in> set ls. l \<noteq> [] \<and> (\<forall>c \<in> set l. \<not> is_quote c)"
  shows "hrefs (concat (map anchor ls)) = ls"
  using assms
proof (induction ls)
  case Nil
  show ?case by (simp add: hrefs.simps [of "[]"])
next
  case (Cons l ls)
  then have "exec (anchor l @ concat (map anchor ls)) = Some (l, ''>x</a>'' @ concat (map anchor ls))"
    by (simp add: exec_anchor)
  then have "hrefs (concat (map anchor (l # ls))) = l # hrefs (''>x</a>'' @ concat (map anchor ls))"
    by (simp add: hrefs.simps [of "anchor l @ concat (map anchor ls)"])
  with Cons show ?case using hrefs_tail [of "concat (map anchor ls)"] by simp
qed

lemma extractLinks_anchors:
  assumes "\<forall>l \<in> set ls. l \<noteq> [] \<and> (\<forall>c \<in> set l. \<not> is_quote c)"
  shows "extractLinks (concat (map anchor ls)) = newSet (filter isInternalLink ls)"
  using assms by (simp add: extractLinks_hrefs hrefs_anchors)

text \<open>
  C8. For every page, the extractor returns a list without repetition whose elements are
  the internal ones among the href attribute values the pattern finds in the page; its
  length is the number of distinct such values, however often each of them occurs.
\<close>

theorem extractLinks_unique:
  "distinct (extractLinks html) \<and>
   set (extractLinks html) = {l \<in> set (hrefs html). isInternalLink l} \<and>
   length (extractLinks html) = card {l \<in> set (hrefs html). isInternalLink l}"
proof -
  have d: "distinct (extractLinks html)" by (simp add: extractLinks_hrefs)
  have s: "set (extractLinks html) = {l \<in> set (hrefs html). isInternalLink l}"
    by (simp add: extractLinks_hrefs)
  from d have "length (extractLinks html) = card (set (extractLinks html))"
    by (simp add: distinct_card)
  with d s show ?thesis by simp
qed

text \<open>
  A page with four anchors: \<^verbatim>\<open>/a\<close> twice, \<^verbatim>\<open>./b\<close> once and an external link. Two
  distinct internal values, two candidates.
\<close>

theorem extractLinks_unique_witness:
  "hrefs example_page = [''/a'', ''./b'', ''/a'', ''https://example.org/''] \<and>
   extractLinks example_page = [''/a'', ''./b''] \<and>
   card {l \<in> set (hrefs example_page). isInternalLink l} = 2"
proof -
  have h: "hrefs example_page = [''/a'', ''./b'', ''/a'', ''https://example.org/'']"
    by code_simp
  have e: "extractLinks example_page = [''/a'', ''./b'']"
    by code_simp
  from e extractLinks_unique [of example_page] h show ?thesis by simp
qed

text \<open>
  C4, as the code has it. A link that starts with \<^verbatim>\<open>#\<close> or with \<^verbatim>\<open>?\<close> has none of the
  four prefixes of the classification: it is not internal, and the extractor returns it
  for no page, so it is never passed on for verification.
\<close>

theorem fragment_query_not_internal:
  assumes "startsWith link ''#'' \<or> startsWith link ''?''"
  shows "\<not> isInternalLink link \<and> link \<notin> set (extractLinks html)"
proof -
  from assms have "\<not> isInternalLink link"
    by (cases link) (auto simp: isInternalLink_def)
  then show ?thesis by (simp add: extractLinks_hrefs)
qed

text \<open>The pattern finds \<^verbatim>\<open>#section\<close> in the page, and the extractor drops it.\<close>

theorem fragment_query_not_internal_witness:
  "startsWith ''#section'' ''#'' \<and>
   hrefs fragment_page = [''#section'', ''?x=1''] \<and>
   \<not> isInternalLink ''#section'' \<and>
   ''#section'' \<notin> set (extractLinks fragment_page)"
proof -
  have "hrefs fragment_page = [''#section'', ''?x=1'']" by code_simp
  then show ?thesis
    using fragment_query_not_internal [of "''#section''" fragment_page] by simp
qed

text \<open>
  C4 as the specification states it fails: neither \<^verbatim>\<open>#section\<close> nor \<^verbatim>\<open>?x=1\<close> is
  classified as internal, and a page whose only links they are yields no candidate.
\<close>

theorem fragment_query_excluded:
  "\<not> isInternalLink ''#section'' \<and> \<not> isInternalLink ''?x=1'' \<and>
   extractLinks fragment_page = []"
  by code_simp

section \<open>Effects of the checker's methods\<close>

lemma print_fields [simp]:
  "requests (print l s) = requests s"
  "brokenLinks (print l s) = brokenLinks s"
  "checkedLinks (print l s) = checkedLinks s"
  "serverRunning (print l s) = serverRunning s"
  "console (print l s) = console s @ [l]"
  by (simp_all add: print_def)

lemma push_fields [simp]:
  "requests (push b s) = requests s"
  "brokenLinks (push b s) = brokenLinks s @ [b]"
  "checkedLinks (push b s) = checkedLinks s"
  "serverRunning (push b s) = serverRunning s"
  "console (push b s) = console s"
  by (simp_all add: push_def)

subsection \<open>checkLink\<close>

lemma checkLink_seen: "link \<in> checkedLinks s \<Longrightarrow> checkLink net sourcePage link s = s"
  by (simp add: checkLink_def)

lemma checkLink_requests:
  "link \<notin> checkedLinks s \<Longrightarrow>
     requests (checkLink net sourcePage link s) =
       requests s @ [Request HEAD (BASE_URL @ normalizeLink link)]"
  by (simp add: checkLink_def fetch_def split: fetched.split)

lemma checkLink_checkedLinks:
  "checkedLinks (checkLink net sourcePage link s) = insert link (checkedLinks s)"
  by (auto simp add: checkLink_def fetch_def split: fetched.split)

lemma checkLink_serverRunning [simp]:
  "serverRunning (checkLink net sourcePage link s) = serverRunning s"
  by (simp add: checkLink_def fetch_def split: fetched.split)

lemma checkLink_gets [simp]:
  "filter is_get (requests (checkLink net sourcePage link s)) = filter is_get (requests s)"
  by (cases "link \<in> checkedLinks s") (simp_all add: checkLink_seen checkLink_requests)

lemma foldl_checkLink_serverRunning [simp]:
  "serverRunning (foldl (\<lambda>s2 link. checkLink net page link s2) s links) = serverRunning s"
  by (induction links arbitrary: s) simp_all

lemma foldl_checkLink_gets [simp]:
  "filter is_get (requests (foldl (\<lambda>s2 link. checkLink net page link s2) s links)) =
     filter is_get (requests s)"
  by (induction links arbitrary: s) simp_all

subsection \<open>checkPageLinks and the loop over the seed pages\<close>

lemma checkPageLinks_down: "\<not> serverRunning s \<Longrightarrow> checkPageLinks net page s = s"
  by (simp add: checkPageLinks_def)

lemma checkPageLinks_not_ok:
  assumes "serverRunning s"
    and "net (requests s) (Request GET (BASE_URL @ page)) = Resolved st body"
    and "\<not> ok st"
  shows "checkPageLinks net page s =
           push \<lparr>broken_page = page, broken_link = page, broken_status = Code st,
                  broken_type = ''page'', broken_error = None\<rparr>
             (s\<lparr>requests := requests s @ [Request GET (BASE_URL @ page)]\<rparr>)"
  using assms by (simp add: checkPageLinks_def fetch_def)

lemma checkPageLinks_rejected:
  assumes "serverRunning s"
    and "net (requests s) (Request GET (BASE_URL @ page)) = Rejected msg"
  shows "checkPageLinks net page s =
           print (LogPageFailed page msg)
             (s\<lparr>requests := requests s @ [Request GET (BASE_URL @ page)]\<rparr>)"
  using assms by (simp add: checkPageLinks_def fetch_def)

lemma checkPageLinks_serverRunning [simp]:
  "serverRunning (checkPageLinks net page s) = serverRunning s"
  by (simp add: checkPageLinks_def fetch_def split: fetched.split sum.split)

lemma checkPageLinks_gets:
  "serverRunning s \<Longrightarrow>
     filter is_get (requests (checkPageLinks net page s)) =
       filter is_get (requests s) @ [Request GET (BASE_URL @ page)]"
  by (simp add: checkPageLinks_def fetch_def split: fetched.split sum.split)

lemma checkPages_Nil [simp]: "checkPages net [] s = s"
  by (simp add: checkPages_def)

lemma checkPages_Cons [simp]:
  "checkPages net (page # pages) s =
     checkPages net pages (checkPageLinks net page (print (LogChecking page) s))"
  by (simp add: checkPages_def)

lemma checkPages_gets:
  "serverRunning s \<Longrightarrow>
     filter is_get (requests (checkPages net pages s)) =
       filter is_get (requests s) @ map (\<lambda>page. Request GET (BASE_URL @ page)) pages"
  by (induction pages arbitrary: s) (simp_all add: checkPageLinks_gets)

lemma checkPages_down:
  "\<not> serverRunning s \<Longrightarrow>
     requests (checkPages net pages s) = requests s \<and>
     brokenLinks (checkPages net pages s) = brokenLinks s \<and>
     \<not> serverRunning (checkPages net pages s)"
  by (induction pages arbitrary: s) (simp_all add: checkPageLinks_down)

subsection \<open>checkStaticFiles, displayResults and checkServerStatus\<close>

lemma checkFile_fields [simp]:
  "requests (checkFile fs s file) = requests s"
  "checkedLinks (checkFile fs s file) = checkedLinks s"
  "serverRunning (checkFile fs s file) = serverRunning s"
  by (simp_all add: checkFile_def)

lemma checkFile_brokenLinks:
  "brokenLinks (checkFile fs s file) =
     brokenLinks s @
       (if fs file then []
        else [\<lparr>broken_page = ''static'', broken_link = file,
               broken_status = Label ''NOT_FOUND'', broken_type = ''file'',
               broken_error = None\<rparr>])"
  by (simp add: checkFile_def)

lemma checkFile_console:
  "x \<in> set (console s) \<Longrightarrow> x \<in> set (console (checkFile fs s file))"
  by (simp add: checkFile_def)

lemma foldl_checkFile_brokenLinks:
  "brokenLinks (foldl (checkFile fs) s files) =
     brokenLinks s @
       map (\<lambda>file. \<lparr>broken_page = ''static'', broken_link = file,
                    broken_status = Label ''NOT_FOUND'', broken_type = ''file'',
                    broken_error = None\<rparr>)
         (filter (\<lambda>file. \<not> fs file) files)"
  by (induction files arbitrary: s) (simp_all add: checkFile_brokenLinks)

lemma foldl_checkFile_fields [simp]:
  "requests (foldl (checkFile fs) s files) = requests s"
  "checkedLinks (foldl (checkFile fs) s files) = checkedLinks s"
  by (induction files arbitrary: s) simp_all

lemma foldl_checkFile_console:
  "x \<in> set (console s) \<Longrightarrow> x \<in> set (console (foldl (checkFile fs) s files))"
  by (induction files arbitrary: s) (simp_all add: checkFile_console)

lemma checkStaticFiles_fields [simp]:
  "requests (checkStaticFiles fs s) = requests s"
  "checkedLinks (checkStaticFiles fs s) = checkedLinks s"
  by (simp_all add: checkStaticFiles_def)

lemma checkStaticFiles_brokenLinks:
  "brokenLinks (checkStaticFiles fs s) =
     brokenLinks s @
       map (\<lambda>file. \<lparr>broken_page = ''static'', broken_link = file,
                    broken_status = Label ''NOT_FOUND'', broken_type = ''file'',
                    broken_error = None\<rparr>)
         (filter (\<lambda>file. \<not> fs file) staticFiles)"
  by (simp add: checkStaticFiles_def foldl_checkFile_brokenLinks)

lemma checkStaticFiles_header: "LogStaticHeader \<in> set (console (checkStaticFiles fs s))"
  using foldl_checkFile_console [of LogStaticHeader "print LogStaticHeader s" fs staticFiles]
  by (simp add: checkStaticFiles_def)

lemma displayResults_fields [simp]:
  "requests (displayResults s) = requests s"
  "brokenLinks (displayResults s) = brokenLinks s"
  "checkedLinks (displayResults s) = checkedLinks s"
  "set (console s) \<subseteq> set (console (displayResults s))"
  by (auto simp add: displayResults_def)

lemma checkServerStatus_fields:
  "requests (checkServerStatus net s) = requests s @ [Request GET (BASE_URL @ ''/'')]"
  "brokenLinks (checkServerStatus net s) = brokenLinks s"
  "checkedLinks (checkServerStatus net s) = checkedLinks s"
  by (simp_all add: checkServerStatus_def fetch_def split: fetched.split)

lemma checkServerStatus_serverRunning:
  "serverRunning (checkServerStatus net s) \<longleftrightarrow>
     (case net (requests s) (Request GET (BASE_URL @ ''/'')) of
        Rejected msg \<Rightarrow> False
      | Resolved st body \<Rightarrow> ok st)"
  by (simp add: checkServerStatus_def fetch_def split: fetched.split)

section \<open>The link verifier\<close>

text \<open>
  C6. A link that is not yet in the set of visited links is checked with one
  \<^verbatim>\<open>HEAD\<close> request for its normal form. A response with a status from 200 to 299 adds
  no entry; any other response adds exactly one entry of type link with the numeric
  status; a request that fails or times out adds exactly one entry of type link with the
  status \<^verbatim>\<open>TIMEOUT\<close> and the error's message.
\<close>

theorem checkLink_outcomes:
  assumes "link \<notin> checkedLinks s"
  shows "requests (checkLink net sourcePage link s) =
           requests s @ [Request HEAD (BASE_URL @ normalizeLink link)] \<and>
         brokenLinks (checkLink net sourcePage link s) =
           brokenLinks s @
             (case net (requests s) (Request HEAD (BASE_URL @ normalizeLink link)) of
                Resolved st body \<Rightarrow>
                  if ok st then []
                  else [\<lparr>broken_page = sourcePage, broken_link = normalizeLink link,
                         broken_status = Code st, broken_type = ''link'',
                         broken_error = None\<rparr>]
              | Rejected msg \<Rightarrow>
                  [\<lparr>broken_page = sourcePage, broken_link = normalizeLink link,
                    broken_status = Label ''TIMEOUT'', broken_type = ''link'',
                    broken_error = Some msg\<rparr>])"
  using assms by (simp add: checkLink_def fetch_def split: fetched.split)

text \<open>
  On the example site: \<^verbatim>\<open>/missing-page\<close> answers 404, \<^verbatim>\<open>./slow\<close> times out and
  \<^verbatim>\<open>/blogs\<close> answers 200.
\<close>

theorem checkLink_outcomes_witness:
  "''/missing-page'' \<notin> checkedLinks running_checker \<and>
   brokenLinks (checkLink example_net ''/'' ''/missing-page'' running_checker) =
     [\<lparr>broken_page = ''/'', broken_link = ''/missing-page'', broken_status = Code 404,
       broken_type = ''link'', broken_error = None\<rparr>] \<and>
   brokenLinks (checkLink example_net ''/'' ''./slow'' running_checker) =
     [\<lparr>broken_page = ''/'', broken_link = ''/./slow'', broken_status = Label ''TIMEOUT'',
       broken_type = ''link'', broken_error = Some ''The operation was aborted''\<rparr>] \<and>
   brokenLinks (checkLink example_net ''/'' ''/blogs'' running_checker) = []"
proof -
  have fresh: "l \<notin> checkedLinks running_checker" for l
    by (simp add: running_checker_def new_LinkChecker_def)
  have none: "brokenLinks running_checker = []" "requests running_checker = []"
    by (simp_all add: running_checker_def new_LinkChecker_def)
  have n: "normalizeLink ''/missing-page'' = ''/missing-page''"
    "normalizeLink ''./slow'' = ''/./slow''"
    "normalizeLink ''/blogs'' = ''/blogs''"
    by (simp_all add: normalizeLink_def)
  have a: "example_net [] (Request HEAD (BASE_URL @ ''/missing-page'')) = Resolved 404 (Inr [])"
    by (simp add: example_net_def BASE_URL_def)
  have b: "example_net [] (Request HEAD (BASE_URL @ ''/./slow'')) =
      Rejected ''The operation was aborted''"
    by (simp add: example_net_def BASE_URL_def)
  have c: "example_net [] (Request HEAD (BASE_URL @ ''/blogs'')) = Resolved 200 (Inr [])"
    by (simp add: example_net_def BASE_URL_def)
  show ?thesis
    using checkLink_outcomes [of "''/missing-page''" running_checker example_net "''/''"]
      checkLink_outcomes [of "''./slow''" running_checker example_net "''/''"]
      checkLink_outcomes [of "''/blogs''" running_checker example_net "''/''"]
    by (simp add: fresh none n a b c ok_def)
qed

section \<open>The page fetcher\<close>



section \<open>The availability probe and the static asset checker\<close>

text \<open>
  C5. When the probe fails (its request fails, or the response is not successful), the
  probe is the only network call of the whole run: no page is fetched and no link is
  checked. The static asset checker still runs (it prints its header) and records one
  entry of type file with the status \<^verbatim>\<open>NOT_FOUND\<close> for each file of its list that is
  missing, and these are all the entries of the run.
\<close>

theorem probe_failure_static_only:
  assumes "case net [] (Request GET (BASE_URL @ ''/'')) of
             Rejected msg \<Rightarrow> True
           | Resolved st body \<Rightarrow> \<not> ok st"
  shows "requests (run net fs) = [Request GET (BASE_URL @ ''/'')] \<and>
         brokenLinks (run net fs) =
           map (\<lambda>file. \<lparr>broken_page = ''static'', broken_link = file,
                        broken_status = Label ''NOT_FOUND'', broken_type = ''file'',
                        broken_error = None\<rparr>)
             (filter (\<lambda>file. \<not> fs file) staticFiles) \<and>
         LogStaticHeader \<in> set (console (run net fs))"
proof -
  let ?s1 = "checkServerStatus net (print LogStart new_LinkChecker)"
  have down: "\<not> serverRunning ?s1"
    using assms
    by (simp add: checkServerStatus_serverRunning new_LinkChecker_def split: fetched.splits)
  have r1: "requests ?s1 = [Request GET (BASE_URL @ ''/'')]"
    by (simp add: checkServerStatus_fields new_LinkChecker_def)
  have b1: "brokenLinks ?s1 = []"
    by (simp add: checkServerStatus_fields new_LinkChecker_def)
  from checkPages_down [OF down, of net PAGES_TO_CHECK] r1 b1
  have "requests (checkPages net PAGES_TO_CHECK ?s1) = [Request GET (BASE_URL @ ''/'')]"
    and "brokenLinks (checkPages net PAGES_TO_CHECK ?s1) = []"
    by simp_all
  moreover have "LogStaticHeader \<in> set (console (run net fs))"
    using checkStaticFiles_header displayResults_fields(4) unfolding run_def by blast
  ultimately show ?thesis
    by (simp add: run_def checkStaticFiles_brokenLinks)
qed

text \<open>
  A server that refuses the connection and one that answers 503, in a working directory
  without the two files: one request, two entries.
\<close>

theorem probe_failure_static_only_witness:
  "requests (run server_down no_files) = [Request GET (BASE_URL @ ''/'')] \<and>
   requests (run server_503 no_files) = [Request GET (BASE_URL @ ''/'')] \<and>
   brokenLinks (run server_down no_files) =
     [\<lparr>broken_page = ''static'',
       broken_link = ''public/enhanced_dividend_result_20251016_145023.html'',
       broken_status = Label ''NOT_FOUND'', broken_type = ''file'', broken_error = None\<rparr>,
      \<lparr>broken_page = ''static'', broken_link = ''public/netnet_result.html'',
       broken_status = Label ''NOT_FOUND'', broken_type = ''file'', broken_error = None\<rparr>] \<and>
   brokenLinks (run server_503 no_files) = brokenLinks (run server_down no_files)"
  using probe_failure_static_only [of server_down no_files]
    probe_failure_static_only [of server_503 no_files]
  by (simp add: server_down_def server_503_def no_files_def staticFiles_def ok_def)

text \<open>
  C2 against the code. The files the script names in its configuration,
  \<^verbatim>\<open>FILES_TO_CHECK\<close>, are never tested: the static asset checker walks the two paths
  written in its own body. In a working directory where no file exists, the entries of
  type file of a run are those two paths, and no path of \<^verbatim>\<open>FILES_TO_CHECK\<close> is the
  link of any entry.
\<close>

theorem configured_files_not_checked:
  "map broken_link (filter (\<lambda>b. broken_type b = ''file'') (brokenLinks (run example_net no_files))) =
     [''public/enhanced_dividend_result_20251016_145023.html'', ''public/netnet_result.html''] \<and>
   set FILES_TO_CHECK \<inter> set (map broken_link (brokenLinks (run example_net no_files))) = {}"
  by code_simp

section \<open>Deduplication across the run\<close>

lemma count_list_snoc: "count_list (xs @ [y]) x = count_list xs x + (if x = y then 1 else 0)"
  by (induction xs) auto

lemma dedup_inv_get:
  "dedup_inv s \<Longrightarrow> dedup_inv (s\<lparr>requests := requests s @ [Request GET u]\<rparr>)"
  by (simp add: dedup_inv_def count_list_snoc)

lemma dedup_inv_checkLink:
  assumes "dedup_inv s"
  shows "dedup_inv (checkLink net sourcePage link s)"
proof (cases "link \<in> checkedLinks s")
  case True
  with assms show ?thesis by (simp add: checkLink_seen)
next
  case False
  from assms have fin: "finite (checkedLinks s)" by (simp add: dedup_inv_def)
  have "count_list (requests (checkLink net sourcePage link s)) (Request HEAD (BASE_URL @ n)) =
        card {l \<in> checkedLinks (checkLink net sourcePage link s). normalizeLink l = n}" for n
  proof (cases "normalizeLink link = n")
    case True
    have "{l \<in> insert link (checkedLinks s). normalizeLink l = n} =
          insert link {l \<in> checkedLinks s. normalizeLink l = n}"
      using True by auto
    moreover have "link \<notin> {l \<in> checkedLinks s. normalizeLink l = n}"
      using False by simp
    moreover have "finite {l \<in> checkedLinks s. normalizeLink l = n}"
      using fin by simp
    ultimately have "card {l \<in> insert link (checkedLinks s). normalizeLink l = n} =
        Suc (card {l \<in> checkedLinks s. normalizeLink l = n})"
      by simp
    with assms False True show ?thesis
      by (simp add: checkLink_requests checkLink_checkedLinks count_list_snoc dedup_inv_def)
  next
    case neq: False
    have "{l \<in> insert link (checkedLinks s). normalizeLink l = n} =
          {l \<in> checkedLinks s. normalizeLink l = n}"
      using neq by auto
    with assms False neq show ?thesis
      by (simp add: checkLink_requests checkLink_checkedLinks count_list_snoc dedup_inv_def)
  qed
  moreover have "finite (checkedLinks (checkLink net sourcePage link s))"
    using fin by (simp add: checkLink_checkedLinks)
  ultimately show ?thesis by (simp add: dedup_inv_def)
qed

lemma dedup_inv_foldl_checkLink:
  "dedup_inv s \<Longrightarrow> dedup_inv (foldl (\<lambda>s2 link. checkLink net page link s2) s links)"
  by (induction links arbitrary: s) (simp_all add: dedup_inv_checkLink)

lemma dedup_inv_print [simp]: "dedup_inv (print l s) = dedup_inv s"
  by (simp add: dedup_inv_def)

lemma dedup_inv_push [simp]: "dedup_inv (push b s) = dedup_inv s"
  by (simp add: dedup_inv_def)

lemma dedup_inv_checkPageLinks:
  assumes "dedup_inv s"
  shows "dedup_inv (checkPageLinks net page s)"
proof -
  let ?s1 = "s\<lparr>requests := requests s @ [Request GET (BASE_URL @ page)]\<rparr>"
  have "dedup_inv ?s1" using assms by (rule dedup_inv_get)
  then have "dedup_inv (foldl (\<lambda>s2 link. checkLink net page link s2) ?s1 links)" for links
    by (rule dedup_inv_foldl_checkLink)
  with assms \<open>dedup_inv ?s1\<close> show ?thesis
    by (simp add: checkPageLinks_def fetch_def split: fetched.split sum.split)
qed

lemma dedup_inv_checkPages:
  "dedup_inv s \<Longrightarrow> dedup_inv (checkPages net pages s)"
  by (induction pages arbitrary: s) (simp_all add: dedup_inv_checkPageLinks)

lemma dedup_inv_checkServerStatus:
  "dedup_inv s \<Longrightarrow> dedup_inv (checkServerStatus net s)"
  using dedup_inv_get [of s "BASE_URL @ ''/''"]
  by (simp add: dedup_inv_def checkServerStatus_fields)

lemma dedup_inv_new: "dedup_inv new_LinkChecker"
  by (simp add: dedup_inv_def new_LinkChecker_def)

lemma dedup_inv_run: "dedup_inv (run net fs)"
proof -
  have "dedup_inv (checkPages net PAGES_TO_CHECK
          (checkServerStatus net (print LogStart new_LinkChecker)))"
    by (intro dedup_inv_checkPages dedup_inv_checkServerStatus) (simp add: dedup_inv_new)
  then show ?thesis
    by (simp add: run_def dedup_inv_def)
qed

lemma page_links_append:
  "page_links net hist (rs @ rs') = page_links net hist rs @ page_links net (hist @ rs) rs'"
  by (induction net hist rs rule: page_links.induct) simp_all

lemma page_links_checks:
  "\<forall>r \<in> set hs. \<not> is_get r \<Longrightarrow> page_links net hist hs = []"
  by (induction net hist hs rule: page_links.induct) simp_all

lemma foldl_set_add_append:
  "foldl set_add [] (xs @ ys) = foldl set_add (newSet xs) ys"
  by (simp add: newSet_def)

text \<open>One call of checkLink is one insertion into the Set of the links seen.\<close>

lemma checkLink_set_add:
  assumes "checkedLinks s = set acc"
    and "filter (\<lambda>r. \<not> is_get r) (requests s) = map check_request acc"
  shows "checkedLinks (checkLink net sourcePage link s) = set (set_add acc link) \<and>
         filter (\<lambda>r. \<not> is_get r) (requests (checkLink net sourcePage link s)) =
           map check_request (set_add acc link)"
proof (cases "link \<in> checkedLinks s")
  case True
  with assms show ?thesis by (simp add: checkLink_seen set_add_def)
next
  case False
  with assms show ?thesis
    by (simp add: checkLink_requests checkLink_checkedLinks set_add_def check_request_def)
qed

lemma checkLink_appends:
  "\<exists>hs. requests (checkLink net sourcePage link s) = requests s @ hs \<and>
        (\<forall>r \<in> set hs. \<not> is_get r)"
proof (cases "link \<in> checkedLinks s")
  case True
  then show ?thesis by (simp add: checkLink_seen)
next
  case False
  then show ?thesis by (simp add: checkLink_requests)
qed

lemma foldl_checkLink_set_add:
  assumes "checkedLinks s = set acc"
    and "filter (\<lambda>r. \<not> is_get r) (requests s) = map check_request acc"
  shows "checkedLinks (foldl (\<lambda>s2 link. checkLink net page link s2) s links) =
           set (foldl set_add acc links) \<and>
         filter (\<lambda>r. \<not> is_get r)
             (requests (foldl (\<lambda>s2 link. checkLink net page link s2) s links)) =
           map check_request (foldl set_add acc links)"
  using assms
proof (induction links arbitrary: s acc)
  case Nil
  then show ?case by simp
next
  case (Cons l links)
  from checkLink_set_add [OF Cons.prems, of net page l]
  show ?case by (simp add: Cons.IH)
qed

lemma foldl_checkLink_appends:
  "\<exists>hs. requests (foldl (\<lambda>s2 link. checkLink net page link s2) s links) = requests s @ hs \<and>
        (\<forall>r \<in> set hs. \<not> is_get r)"
proof (induction links arbitrary: s)
  case Nil
  show ?case by simp
next
  case (Cons l links)
  obtain hs where a: "requests (checkLink net page l s) = requests s @ hs"
      and b: "\<forall>r \<in> set hs. \<not> is_get r"
    using checkLink_appends by blast
  obtain hs' where c: "requests (foldl (\<lambda>s2 link. checkLink net page link s2)
        (checkLink net page l s) links) = requests (checkLink net page l s) @ hs'"
      and d: "\<forall>r \<in> set hs'. \<not> is_get r"
    using Cons.IH by blast
  have "requests (foldl (\<lambda>s2 link. checkLink net page link s2) s (l # links)) =
      requests s @ (hs @ hs')"
    using a c by simp
  moreover have "\<forall>r \<in> set (hs @ hs'). \<not> is_get r" using b d by auto
  ultimately show ?case by blast
qed

lemma checkPageLinks_links:
  assumes "serverRunning s"
    and "checkedLinks s = set acc"
    and "filter (\<lambda>r. \<not> is_get r) (requests s) = map check_request acc"
  shows "\<exists>hs. requests (checkPageLinks net page s) =
              requests s @ Request GET (BASE_URL @ page) # hs \<and>
            (\<forall>r \<in> set hs. \<not> is_get r) \<and>
            checkedLinks (checkPageLinks net page s) =
              set (foldl set_add acc (links_of (net (requests s) (Request GET (BASE_URL @ page))))) \<and>
            filter (\<lambda>r. \<not> is_get r) (requests (checkPageLinks net page s)) =
              map check_request
                (foldl set_add acc (links_of (net (requests s) (Request GET (BASE_URL @ page)))))"
proof -
  let ?get = "Request GET (BASE_URL @ page)"
  let ?s1 = "s\<lparr>requests := requests s @ [?get]\<rparr>"
  have s1: "checkedLinks ?s1 = set acc"
    "filter (\<lambda>r. \<not> is_get r) (requests ?s1) = map check_request acc"
    using assms by simp_all
  show ?thesis
  proof (cases "net (requests s) ?get")
    case (Rejected msg)
    with assms show ?thesis by (simp add: checkPageLinks_rejected)
  next
    case (Resolved st body)
    show ?thesis
    proof (cases "ok st")
      case False
      with Resolved assms show ?thesis
        by (cases body) (simp_all add: checkPageLinks_not_ok)
    next
      case True
      show ?thesis
      proof (cases body)
        case (Inl msg)
        with True Resolved assms show ?thesis
          by (simp add: checkPageLinks_def fetch_def)
      next
        case (Inr html)
        let ?f = "foldl (\<lambda>s2 link. checkLink net page link s2) ?s1 (extractLinks html)"
        have e: "checkPageLinks net page s = ?f"
          using Inr True Resolved assms by (simp add: checkPageLinks_def fetch_def)
        obtain hs where h: "requests ?f = requests ?s1 @ hs" "\<forall>r \<in> set hs. \<not> is_get r"
          using foldl_checkLink_appends by blast
        from foldl_checkLink_set_add [OF s1, of net page "extractLinks html"] h
        show ?thesis using Inr True Resolved by (simp add: e)
      qed
    qed
  qed
qed

lemma links_inv_checkPageLinks:
  assumes "links_inv net s"
  shows "links_inv net (checkPageLinks net page s)"
proof (cases "serverRunning s")
  case False
  with assms show ?thesis by (simp add: checkPageLinks_down)
next
  case True
  from assms obtain probe rest where r: "requests s = probe # rest"
    by (cases "requests s") (auto simp: links_inv_def)
  let ?L = "page_links net [probe] rest"
  let ?get = "Request GET (BASE_URL @ page)"
  from assms r have c: "checkedLinks s = set (newSet ?L)"
    and f: "filter (\<lambda>r. \<not> is_get r) (requests s) = map check_request (newSet ?L)"
    by (simp_all add: links_inv_def run_links_def)
  from checkPageLinks_links [OF True c f, of net page]
  obtain hs where h: "requests (checkPageLinks net page s) = requests s @ ?get # hs"
      and g: "\<forall>r \<in> set hs. \<not> is_get r"
      and c': "checkedLinks (checkPageLinks net page s) =
          set (foldl set_add (newSet ?L) (links_of (net (requests s) ?get)))"
      and f': "filter (\<lambda>r. \<not> is_get r) (requests (checkPageLinks net page s)) =
          map check_request (foldl set_add (newSet ?L) (links_of (net (requests s) ?get)))"
    by blast
  have "run_links net (requests (checkPageLinks net page s)) =
      page_links net [probe] (rest @ ?get # hs)"
    using h r by (simp add: run_links_def)
  also have "\<dots> = ?L @ links_of (net (requests s) ?get)"
    using g r by (simp add: page_links_append page_links_checks)
  finally have "run_links net (requests (checkPageLinks net page s)) =
      ?L @ links_of (net (requests s) ?get)" .
  moreover have "newSet (?L @ links_of (net (requests s) ?get)) =
      foldl set_add (newSet ?L) (links_of (net (requests s) ?get))"
    by (simp add: newSet_def)
  ultimately show ?thesis
    using h c' f' by (simp add: links_inv_def set_foldl_set_add)
qed

lemma links_inv_print [simp]: "links_inv net (print l s) = links_inv net s"
  by (simp add: links_inv_def)

lemma links_inv_checkPages:
  "links_inv net s \<Longrightarrow> links_inv net (checkPages net pages s)"
  by (induction pages arbitrary: s) (simp_all add: links_inv_checkPageLinks)

lemma links_inv_probe:
  "links_inv net (checkServerStatus net (print LogStart new_LinkChecker))"
  by (simp add: links_inv_def checkServerStatus_fields new_LinkChecker_def run_links_def
      newSet_def)

lemma links_inv_run: "links_inv net (run net fs)"
proof -
  have "links_inv net (checkPages net PAGES_TO_CHECK
          (checkServerStatus net (print LogStart new_LinkChecker)))"
    by (intro links_inv_checkPages links_inv_probe)
  then show ?thesis
    by (simp add: run_def links_inv_def)
qed

lemma run_gets:
  "filter is_get (requests (run net fs)) =
     Request GET (BASE_URL @ ''/'') #
       (case net [] (Request GET (BASE_URL @ ''/'')) of
          Resolved st body \<Rightarrow>
            if ok st then map (\<lambda>page. Request GET (BASE_URL @ page)) PAGES_TO_CHECK else []
        | Rejected msg \<Rightarrow> [])"
proof -
  let ?s1 = "checkServerStatus net (print LogStart new_LinkChecker)"
  have r1: "requests ?s1 = [Request GET (BASE_URL @ ''/'')]"
    by (simp add: checkServerStatus_fields new_LinkChecker_def)
  have up: "serverRunning ?s1 \<longleftrightarrow>
      (case net [] (Request GET (BASE_URL @ ''/'')) of
         Rejected msg \<Rightarrow> False | Resolved st body \<Rightarrow> ok st)"
    by (simp add: checkServerStatus_serverRunning new_LinkChecker_def)
  show ?thesis
  proof (cases "serverRunning ?s1")
    case True
    from checkPages_gets [OF True, of net PAGES_TO_CHECK] True up r1
    show ?thesis by (simp add: run_def split: fetched.splits)
  next
    case False
    from checkPages_down [OF False, of net PAGES_TO_CHECK] False up r1
    show ?thesis by (simp add: run_def split: fetched.splits)
  qed
qed

text \<open>
  C1, as the code has it. \<^verbatim>\<open>checkLink\<close> tests and extends the set of visited links
  with the link as it was extracted, before it normalises. For every run:
  the requests with the method \<^verbatim>\<open>GET\<close> are the probe and, when the probe succeeded, one
  fetch for each seed page; the set of visited links at the end is exactly the set of the
  links the extractor returned for the seed pages that answered with a successful status
  and a readable body; the existence checks of the run are exactly one \<^verbatim>\<open>HEAD\<close> request
  for each distinct such link, for its normal form, in the order of first extraction;
  and so, for every normal form \<open>n\<close>, the existence checks made for \<open>n\<close> are as many as
  the distinct extracted links whose normal form is \<open>n\<close>.
\<close>

theorem checks_per_normalized_link:
  "filter is_get (requests (run net fs)) =
     Request GET (BASE_URL @ ''/'') #
       (case net [] (Request GET (BASE_URL @ ''/'')) of
          Resolved st body \<Rightarrow>
            if ok st then map (\<lambda>page. Request GET (BASE_URL @ page)) PAGES_TO_CHECK else []
        | Rejected msg \<Rightarrow> []) \<and>
   checkedLinks (run net fs) = set (run_links net (requests (run net fs))) \<and>
   filter (\<lambda>r. \<not> is_get r) (requests (run net fs)) =
     map check_request (newSet (run_links net (requests (run net fs)))) \<and>
   count_list (requests (run net fs)) (Request HEAD (BASE_URL @ n)) =
     card {l \<in> set (run_links net (requests (run net fs))). normalizeLink l = n}"
proof -
  have inv: "links_inv net (run net fs)" by (rule links_inv_run)
  then have c: "checkedLinks (run net fs) = set (run_links net (requests (run net fs)))"
    by (simp add: links_inv_def)
  have "count_list (requests (run net fs)) (Request HEAD (BASE_URL @ n)) =
      card {l \<in> checkedLinks (run net fs). normalizeLink l = n}"
    using dedup_inv_run [of net fs] by (simp add: dedup_inv_def)
  with inv c run_gets [of net fs] show ?thesis
    by (simp add: links_inv_def)
qed

text \<open>
  The two seed pages of the example yield \<^verbatim>\<open>/blog-monakit/a\<close>, \<^verbatim>\<open>/b\<close>, \<^verbatim>\<open>/a\<close> and
  \<^verbatim>\<open>/b\<close> again: three distinct links, three checks, one of them for \<^verbatim>\<open>/b\<close>.
\<close>

theorem checks_per_normalized_link_witness:
  "run_links two_forms_net (requests (run two_forms_net all_files)) =
     [''/blog-monakit/a'', ''/b'', ''/a'', ''/b''] \<and>
   checkedLinks (run two_forms_net all_files) = {''/blog-monakit/a'', ''/b'', ''/a''} \<and>
   filter (\<lambda>r. \<not> is_get r) (requests (run two_forms_net all_files)) =
     [check_request ''/blog-monakit/a'', check_request ''/b'', check_request ''/a''] \<and>
   count_list (requests (run two_forms_net all_files)) (Request HEAD (BASE_URL @ ''/b'')) = 1 \<and>
   card {l \<in> set (run_links two_forms_net (requests (run two_forms_net all_files))).
           normalizeLink l = ''/b''} = 1"
proof -
  note t = checks_per_normalized_link [of two_forms_net all_files "''/b''"]
  have l: "run_links two_forms_net (requests (run two_forms_net all_files)) =
     [''/blog-monakit/a'', ''/b'', ''/a'', ''/b'']"
    by code_simp
  have n: "newSet [''/blog-monakit/a'', ''/b'', ''/a'', ''/b''] =
      [''/blog-monakit/a'', ''/b'', ''/a'']"
    by code_simp
  have cnt: "count_list (requests (run two_forms_net all_files))
      (Request HEAD (BASE_URL @ ''/b'')) = 1"
    by code_simp
  from t cnt have c: "card {l \<in> set (run_links two_forms_net
      (requests (run two_forms_net all_files))). normalizeLink l = ''/b''} = 1"
    by simp
  from t have v: "checkedLinks (run two_forms_net all_files) =
      set (run_links two_forms_net (requests (run two_forms_net all_files)))"
    by simp
  from t have h: "filter (\<lambda>r. \<not> is_get r) (requests (run two_forms_net all_files)) =
      map check_request (newSet (run_links two_forms_net (requests (run two_forms_net all_files))))"
    by simp
  from v have v': "checkedLinks (run two_forms_net all_files) = {''/blog-monakit/a'', ''/b'', ''/a''}"
    by (auto simp: l)
  from h have h': "filter (\<lambda>r. \<not> is_get r) (requests (run two_forms_net all_files)) =
     [check_request ''/blog-monakit/a'', check_request ''/b'', check_request ''/a'']"
    by (simp add: l n)
  from l v' h' cnt c show ?thesis by blast
qed

text \<open>
  C1 as the specification states it fails: the same two pages link to \<^verbatim>\<open>/a\<close>, one as
  \<^verbatim>\<open>/blog-monakit/a\<close> and the other as \<^verbatim>\<open>/a\<close>. Both have the normal form \<^verbatim>\<open>/a\<close>,
  both enter the set of visited links, and the run makes two existence checks for
  \<^verbatim>\<open>/a\<close>.
\<close>

theorem two_checks_for_one_normalized_link:
  "normalizeLink ''/blog-monakit/a'' = ''/a'' \<and>
   normalizeLink ''/a'' = ''/a'' \<and>
   checkedLinks (run two_forms_net all_files) = {''/blog-monakit/a'', ''/b'', ''/a''} \<and>
   count_list (requests (run two_forms_net all_files)) (Request HEAD (BASE_URL @ ''/a'')) = 2"
  by code_simp

end
